theory Spec2Isabelle
  imports Complex_Main "HOL-Library.Multiset"
begin

section \<open>Randomly permutated pointer lists: generator and test suite\<close>

text \<open>
  The program builds a cyclic singly linked list inside an array of \<open>N\<close> 64-bit slots
  (slot \<open>i\<close> holds the address of its successor slot) and then chases the pointers from
  slot 0, counting the visited slots and recording the stride of every hop.

  Modelling decisions.
  \<^item> A slot value is modelled by the index of the slot whose address it holds: the value
    \<open>k\<close> stands for the address \<open>&list[k]\<close>. The pointer \<open>p\<close> of the chase loop is the
    index \<open>p - list\<close>.
  \<^item> The source indexes raw C++ arrays. An access outside the allocated array and a call of
    \<open>std::shuffle\<close> on a range whose end lies before its start are undefined
    behaviour in the source; the model makes each of them a value of type \<open>fault\<close>,
    so that no result is ever invented for them.
  \<^item> Element counts and array indices are \<open>nat\<close>; the values the source computes as
    signed \<open>int\<close> (strides, counters, bucket bounds) are \<open>int\<close>. The chase is modelled
    from the point where its buffers exist: \<open>N\<close> is a C++ \<open>int\<close> for which
    \<open>new int[2*N]\<close> has succeeded, and inside the loop no value exceeds \<open>2 * N\<close>.
  \<^item> \<open>covered\<close> is a \<open>float\<close> computed in \<open>double\<close>. Both formats are modelled by
    rounding a rational to the nearest value with 53 or 24 significant bits, ties to
    even; the exponent range is not modelled (the values lie between \<open>100 / N\<close> and
    \<open>100 * N\<close>, far from overflow and underflow).
\<close>

datatype fault = OutOfBounds | InvalidRange

subsection \<open>\<open>external_shuffle_generator::getlist\<close>\<close>

text \<open>
  \<open>std::shuffle(frst, lst, gen)\<close> rearranges the elements of the range
  \<open>[frst, lst)\<close> and leaves the rest of the array alone. Which rearrangement is chosen
  depends on the random engine; it is the parameter \<open>g\<close>. A range with
  \<open>lst < frst\<close>, or one that leaves the array, is not a valid range.
\<close>

definition std_shuffle :: "('a list \<Rightarrow> 'a list) \<Rightarrow> int \<Rightarrow> int \<Rightarrow> 'a list \<Rightarrow> fault + 'a list" where
  "std_shuffle g frst lst xs =
     (if frst < 0 \<or> lst < frst \<or> int (length xs) < lst then Inl InvalidRange
      else Inr (take (nat frst) xs
                @ g (take (nat (lst - frst)) (drop (nat frst) xs))
                @ drop (nat lst) xs))"

text \<open>What the standard promises of every outcome of a shuffle: it is a rearrangement.\<close>

definition rearranges :: "('a list \<Rightarrow> 'a list) \<Rightarrow> bool" where
  "rearranges g = (\<forall>ys. mset (g ys) = mset ys)"

text \<open>
  Lines 75 to 97: \<open>traversal_order\<close> is filled with \<open>0, 1, ..., N-1, 0\<close> and then
  \<open>std::shuffle(traversal_order + 1, traversal_order + (N - 1), gen)\<close> is called.
\<close>

definition traversal_order :: "(nat list \<Rightarrow> nat list) \<Rightarrow> nat \<Rightarrow> fault + nat list" where
  "traversal_order g N = std_shuffle g 1 (int N - 1) ([0..<N] @ [0])"

text \<open>
  Lines 107 to 112, the loop \<open>for (i = 0; i < N; i++) list[t[i]] = &list[t[i+1]]\<close>:
  \<open>implement_order t n l\<close> is the array after the first \<open>n\<close> iterations, started on \<open>l\<close>.
\<close>

fun implement_order :: "nat list \<Rightarrow> nat \<Rightarrow> nat list \<Rightarrow> fault + nat list" where
  "implement_order t 0 l = Inr l"
| "implement_order t (Suc n) l =
     (case implement_order t n l of
        Inl e \<Rightarrow> Inl e
      | Inr l' \<Rightarrow>
          if Suc n < length t \<and> t ! n < length l' then Inr (l'[t ! n := t ! Suc n])
          else Inl OutOfBounds)"

text \<open>
  The constructor allocates \<open>list = new uint64_t[N]\<close> without initialising it:
  \<open>junk i\<close> is whatever slot \<open>i\<close> holds at that moment.
\<close>

definition permutated_list_generator :: "(nat \<Rightarrow> nat) \<Rightarrow> nat \<Rightarrow> nat list" where
  "permutated_list_generator junk N = map junk [0..<N]"

definition getlist :: "(nat list \<Rightarrow> nat list) \<Rightarrow> (nat \<Rightarrow> nat) \<Rightarrow> nat \<Rightarrow> fault + nat list" where
  "getlist g junk N =
     (case traversal_order g N of
        Inl e \<Rightarrow> Inl e
      | Inr t \<Rightarrow> implement_order t N (permutated_list_generator junk N))"

subsection \<open>\<open>testGenerator\<close>: the pointer chase\<close>

text \<open>The arrays and local variables the chase loop reads and writes.\<close>

record chase_state =
  list :: "nat list"
  visited :: "bool list"
  strides :: "int list"
  cyclelength :: int
  p :: nat

text \<open>One execution of the body of the \<open>do ... while\<close> loop, lines 144 to 158.\<close>

definition chase_body :: "nat \<Rightarrow> chase_state \<Rightarrow> fault + chase_state" where
  "chase_body N st =
     (if \<not> (p st < length (visited st) \<and> p st < length (list st)) then Inl OutOfBounds
      else
        let stride = int (list st ! p st) - int (p st);
            idx = int N + stride
        in if idx < 0 \<or> int (length (strides st)) \<le> idx then Inl OutOfBounds
           else Inr (st\<lparr>visited := (visited st)[p st := True],
                       cyclelength := cyclelength st + 1,
                       strides := (strides st)[nat idx := strides st ! nat idx + 1],
                       p := list st ! p st\<rparr>))"

text \<open>The loop, lines 141 to 160: the body runs, then \<open>visited[p - list]\<close> is tested.\<close>

function chase :: "nat \<Rightarrow> chase_state \<Rightarrow> fault + chase_state" where
  "chase N st =
     (case chase_body N st of
        Inl e \<Rightarrow> Inl e
      | Inr st' \<Rightarrow>
          if \<not> p st' < length (visited st') then Inl OutOfBounds
          else if visited st' ! p st' then Inr st'
          else chase N st')"
  by pat_completeness auto

termination chase
proof (relation "measure (\<lambda>(N, st). length (filter Not ((visited st)[p st := True])))")
  show "wf (measure (\<lambda>(N, st). length (filter Not ((visited st)[p st := True]))))"
    by simp
next
  fix N :: nat and st st' :: chase_state
  assume body: "chase_body N st = Inr st'"
    and inb: "\<not> \<not> p st' < length (visited st')"
    and unv: "\<not> visited st' ! p st'"
  have fewer: "i < length v \<Longrightarrow> \<not> v ! i \<Longrightarrow>
      length (filter Not (v[i := True])) < length (filter Not v)" for i and v :: "bool list"
  proof (induction v arbitrary: i)
    case Nil
    then show ?case by simp
  next
    case (Cons b v)
    show ?case
    proof (cases i)
      case 0
      with Cons.prems show ?thesis by simp
    next
      case (Suc j)
      with Cons.prems have "length (filter Not (v[j := True])) < length (filter Not v)"
        by (intro Cons.IH) simp_all
      with Suc show ?thesis by simp
    qed
  qed
  from body have v': "visited st' = (visited st)[p st := True]"
    by (auto simp: chase_body_def Let_def split: if_splits)
  from inb unv
  have "length (filter Not ((visited st')[p st' := True])) < length (filter Not (visited st'))"
    by (intro fewer) simp_all
  with v' show "((N, st'), (N, st)) \<in> measure (\<lambda>(N, st). length (filter Not ((visited st)[p st := True])))"
    by simp
qed

declare chase.simps [simp del]

text \<open>
  Lines 127 to 160 of \<open>testGenerator\<close>, once the buffers exist and the generator has
  returned \<open>l\<close>: the buffers are cleared and the chain is chased from slot 0.
\<close>

definition initial_state :: "nat list \<Rightarrow> nat \<Rightarrow> chase_state" where
  "initial_state l N =
     \<lparr>list = l, visited = replicate N False, strides = replicate (2 * N) 0,
      cyclelength = 0, p = 0\<rparr>"

definition analyze :: "nat list \<Rightarrow> nat \<Rightarrow> fault + chase_state" where
  "analyze l N = chase N (initial_state l N)"

subsection \<open>\<open>testGenerator\<close>: the coverage\<close>

text \<open>The number of binary digits of \<open>n > 0\<close>.\<close>

function bitlen :: "int \<Rightarrow> nat" where
  "bitlen n = (if n \<le> 0 then 0 else Suc (bitlen (n div 2)))"
  by pat_completeness auto

termination bitlen
  by (relation "measure nat") simp_all

declare bitlen.simps [simp del]

text \<open>
  The binary exponent of \<open>x \<noteq> 0\<close>: the \<open>e\<close> with \<open>2\<^sup>e \<le> |x| < 2\<^sup>e\<^sup>+\<^sup>1\<close>.
\<close>

definition binade :: "rat \<Rightarrow> int" where
  "binade x =
     (if 1 \<le> \<bar>x\<bar> then int (bitlen \<lfloor>\<bar>x\<bar>\<rfloor>) - 1
      else - int (bitlen (\<lceil>1 / \<bar>x\<bar>\<rceil> - 1)))"

text \<open>The nearest integer; a tie goes to the even one.\<close>

definition round_to_even :: "rat \<Rightarrow> int" where
  "round_to_even x =
     (let f = \<lfloor>x\<rfloor>
      in if x - of_int f < 1 / 2 then f
         else if 1 / 2 < x - of_int f then f + 1
         else if even f then f else f + 1)"

text \<open>
  Rounding to the nearest number with \<open>prec\<close> significant bits: \<open>u\<close> is the unit in
  the last place of \<open>x\<close>.
\<close>

definition fl_round :: "nat \<Rightarrow> rat \<Rightarrow> rat" where
  "fl_round prec x =
     (if x = 0 then 0
      else let u = 2 powi (binade x - int prec + 1)
           in of_int (round_to_even (x / u)) * u)"

definition to_double :: "rat \<Rightarrow> rat" where
  "to_double x = fl_round 53 x"

definition to_float :: "rat \<Rightarrow> rat" where
  "to_float x = fl_round 24 x"


text \<open>
  Line 163, \<open>float covered = (100.0 * cyclelength) / N\<close>: the product and the quotient
  are computed in \<open>double\<close> (the conversion of an \<open>int\<close> to \<open>double\<close> is exact), and
  the quotient is then stored in a \<open>float\<close>. The line is reached only after the chase,
  which has faulted for \<open>N = 0\<close>: the quotient is never a division by zero.
\<close>

definition covered :: "chase_state \<Rightarrow> nat \<Rightarrow> rat" where
  "covered st N =
     to_float (to_double (to_double (100 * of_int (cyclelength st)) / of_nat N))"

subsection \<open>\<open>testGenerator\<close>: the 20 buckets of the histogram\<close>

text \<open>The conversion \<open>(int) x\<close> of a floating-point value truncates towards zero.\<close>

definition int_cast :: "rat \<Rightarrow> int" where
  "int_cast x = (if 0 \<le> x then \<lfloor>x\<rfloor> else \<lceil>x\<rceil>)"

text \<open>
  Lines 185 and 186: \<open>a[i] = (int) (-N + (2.0*N / 20) * i)\<close>, and \<open>b[i]\<close> is the same
  expression at \<open>i+1\<close>. \<open>bucket_bound N i\<close> is the exact value of the expression,
  truncated. The source evaluates it in \<open>double\<close>, where an interior bound can come out
  one off (82 and 15 give 40, the exact value gives 41); the first bound \<open>-N\<close>, the
  last bound \<open>N\<close> and \<open>b[i] = a[i+1]\<close> are the same. The buckets are used below only
  for what all 20 of them hold together.
\<close>

definition bucket_bound :: "nat \<Rightarrow> nat \<Rightarrow> int" where
  "bucket_bound N i = int_cast (- of_nat N + (2 * of_nat N / 20) * of_nat i)"

text \<open>
  Lines 190 and 191, \<open>for (j = a[i] + N; j < b[i] + N; j++) hist[i] += strides[j]\<close>:
  \<open>add_strides s j n h\<close> runs \<open>n\<close> iterations from index \<open>j\<close> on, with \<open>hist[i] = h\<close>.
\<close>

fun add_strides :: "int list \<Rightarrow> int \<Rightarrow> nat \<Rightarrow> int \<Rightarrow> fault + int" where
  "add_strides s j 0 h = Inr h"
| "add_strides s j (Suc n) h =
     (if j < 0 \<or> int (length s) \<le> j then Inl OutOfBounds
      else add_strides s (j + 1) n (h + s ! nat j))"

definition hist_bucket :: "int list \<Rightarrow> nat \<Rightarrow> nat \<Rightarrow> fault + int" where
  "hist_bucket s N i =
     add_strides s (bucket_bound N i + int N)
       (nat (bucket_bound N (i + 1) - bucket_bound N i)) 0"

text \<open>A sequence of computations stops at the first fault.\<close>

fun collect :: "(fault + 'a) list \<Rightarrow> fault + 'a list" where
  "collect [] = Inr []"
| "collect (x # xs) =
     (case x of
        Inl e \<Rightarrow> Inl e
      | Inr v \<Rightarrow> (case collect xs of Inl e \<Rightarrow> Inl e | Inr vs \<Rightarrow> Inr (v # vs)))"

text \<open>Lines 193 and 194: \<open>if (hist[i] > maxAmount) maxAmount = hist[i]\<close>, from 0.\<close>

definition maxAmount :: "int list \<Rightarrow> int" where
  "maxAmount hist = foldl (\<lambda>m h. if h > m then h else m) 0 hist"

text \<open>Lines 184 to 195: the 20 buckets \<open>hist[0..19]\<close> are filled.\<close>

definition buckets :: "int list \<Rightarrow> nat \<Rightarrow> fault + int list" where
  "buckets s N = collect (map (hist_bucket s N) [0..<20])"

subsection \<open>Notions the properties are stated with\<close>

text \<open>\<open>hop l k\<close> is the slot reached from slot 0 after \<open>k\<close> hops along the pointers of \<open>l\<close>.\<close>

definition hop :: "nat list \<Rightarrow> nat \<Rightarrow> nat" where
  "hop l k = ((!) l ^^ k) 0"

text \<open>The first \<open>k\<close> slots of the chain that starts at slot 0.\<close>

definition walk :: "nat list \<Rightarrow> nat \<Rightarrow> nat list" where
  "walk l k = map (hop l) [0..<k]"


text \<open>An array of \<open>N\<close> slots, each of which refers to one of the slots \<open>0..N-1\<close>.\<close>

definition in_range :: "nat list \<Rightarrow> nat \<Rightarrow> bool" where
  "in_range l N = (length l = N \<and> list_all (\<lambda>x. x < N) l)"

text \<open>
  The pointers form one cycle through all \<open>N\<close> slots: the first \<open>N\<close> slots of the chain
  from slot 0 are pairwise different, and the \<open>N\<close>-th hop leads back to slot 0.
\<close>

definition hamiltonian :: "nat list \<Rightarrow> nat \<Rightarrow> bool" where
  "hamiltonian l N = (0 < N \<and> in_range l N \<and> distinct (walk l N) \<and> hop l N = 0)"

text \<open>The index \<open>N + stride\<close> at which the hop out of slot \<open>q\<close> is counted.\<close>

definition stride_index :: "nat list \<Rightarrow> nat \<Rightarrow> nat \<Rightarrow> nat" where
  "stride_index l N q = nat (int N + (int (l ! q) - int q))"

text \<open>The state of the chase after \<open>k\<close> executions of the loop body, written out.\<close>

definition state_at :: "nat list \<Rightarrow> nat \<Rightarrow> nat \<Rightarrow> chase_state" where
  "state_at l N k =
     \<lparr>list = l,
      visited = map (\<lambda>i. i \<in> set (walk l k)) [0..<N],
      strides = map (\<lambda>j. int (count_list (map (stride_index l N) (walk l k)) j)) [0..<2 * N],
      cyclelength = int k,
      p = hop l k\<rparr>"

text \<open>\<open>n\<close> executions of the loop body in a row.\<close>

fun iterations :: "nat \<Rightarrow> nat \<Rightarrow> chase_state \<Rightarrow> fault + chase_state" where
  "iterations N 0 st = Inr st"
| "iterations N (Suc n) st =
     (case iterations N n st of Inl e \<Rightarrow> Inl e | Inr st' \<Rightarrow> chase_body N st')"

section \<open>The chase, step by step\<close>

lemma hop_0: "hop l 0 = 0"
  by (simp add: hop_def)

lemma hop_Suc: "hop l (Suc k) = l ! hop l k"
  by (simp add: hop_def)

lemma walk_0: "walk l 0 = []"
  by (simp add: walk_def)

lemma walk_Suc: "walk l (Suc k) = walk l k @ [hop l k]"
  by (simp add: walk_def)

lemma length_walk: "length (walk l k) = k"
  by (simp add: walk_def)

lemma set_walk: "set (walk l k) = hop l ` {..<k}"
  by (auto simp: walk_def)

lemma in_range_nth: "in_range l N \<Longrightarrow> i < N \<Longrightarrow> l ! i < N"
  by (simp add: in_range_def list_all_length)

lemma hop_less: "in_range l N \<Longrightarrow> 0 < N \<Longrightarrow> hop l k < N"
  by (induction k) (simp_all add: hop_0 hop_Suc in_range_nth)

lemma initial_state_at: "initial_state l N = state_at l N 0"
  by (simp add: initial_state_def state_at_def walk_0 hop_0 map_replicate_const)

lemma stride_index_bounds:
  assumes "in_range l N" "q < N"
  shows "0 < stride_index l N q" "stride_index l N q < 2 * N"
    "int (stride_index l N q) = int N + (int (l ! q) - int q)"
  using in_range_nth[OF assms] assms(2) by (simp_all add: stride_index_def)

lemma chase_body_state_at:
  assumes "in_range l N" "0 < N"
  shows "chase_body N (state_at l N k) = Inr (state_at l N (Suc k))"
proof -
  let ?q = "hop l k"
  have q: "?q < N" using assms by (rule hop_less)
  have len: "length l = N" using assms(1) by (simp add: in_range_def)
  note sb = stride_index_bounds[OF assms(1) q]
  have vis: "(map (\<lambda>i. i \<in> set (walk l k)) [0..<N])[?q := True]
      = map (\<lambda>i. i \<in> set (walk l (Suc k))) [0..<N]"
    using q by (intro nth_equalityI) (auto simp: walk_Suc nth_list_update)
  let ?c = "\<lambda>n j. int (count_list (map (stride_index l N) (walk l n)) j)"
  have str: "(map (?c k) [0..<2 * N])[stride_index l N ?q := ?c k (stride_index l N ?q) + 1]
      = map (?c (Suc k)) [0..<2 * N]"
    using sb(2) by (intro nth_equalityI) (auto simp: walk_Suc nth_list_update)
  have idx: "nat (int N + (int (l ! ?q) - int ?q)) = stride_index l N ?q"
    by (simp add: stride_index_def)
  have nthc: "map (?c k) [0..<2 * N] ! stride_index l N ?q = ?c k (stride_index l N ?q)"
    using sb(2) by simp
  show ?thesis
    unfolding chase_body_def state_at_def Let_def
    using q len sb vis str
    by (simp add: idx hop_Suc nthc)
qed


lemma walk_bounded: "in_range l N \<Longrightarrow> 0 < N \<Longrightarrow> set (walk l k) \<subseteq> {..<N}"
  by (auto simp: set_walk hop_less)

lemma distinct_walk_le:
  assumes "in_range l N" "0 < N" "distinct (walk l k)"
  shows "k \<le> N"
proof -
  have "card (set (walk l k)) \<le> card {..<N}"
    by (intro card_mono walk_bounded assms) simp
  with assms(3) show ?thesis
    by (simp add: distinct_card length_walk)
qed

lemma visited_state_at:
  "q < N \<Longrightarrow> visited (state_at l N k) ! q \<longleftrightarrow> q \<in> set (walk l k)"
  by (simp add: state_at_def)

lemma chase_state_at:
  assumes "in_range l N" "0 < N" "distinct (walk l (Suc k))"
  shows "\<exists>L. k < L \<and> L \<le> N \<and> chase N (state_at l N k) = Inr (state_at l N L)
           \<and> distinct (walk l L) \<and> hop l L \<in> set (walk l L)"
  using assms(3)
proof (induction "N - k" arbitrary: k rule: less_induct)
  case less
  have body: "chase_body N (state_at l N k) = Inr (state_at l N (Suc k))"
    by (rule chase_body_state_at[OF assms(1,2)])
  have q: "hop l (Suc k) < N" by (rule hop_less[OF assms(1,2)])
  have lenv: "length (visited (state_at l N (Suc k))) = N" "p (state_at l N (Suc k)) = hop l (Suc k)"
    by (simp_all add: state_at_def)
  have kN: "Suc k \<le> N" by (rule distinct_walk_le[OF assms(1,2) less.prems])
  show ?case
  proof (cases "hop l (Suc k) \<in> set (walk l (Suc k))")
    case True
    have "chase N (state_at l N k) = Inr (state_at l N (Suc k))"
      by (subst chase.simps) (simp add: body lenv q visited_state_at True)
    with True less.prems kN show ?thesis by blast
  next
    case False
    then have d: "distinct (walk l (Suc (Suc k)))"
      using less.prems by (simp add: walk_Suc[of l "Suc k"])
    have "N - Suc k < N - k" using kN by simp
    from less.hyps[OF this d] obtain L where L: "Suc k < L" "L \<le> N"
      "chase N (state_at l N (Suc k)) = Inr (state_at l N L)"
      "distinct (walk l L)" "hop l L \<in> set (walk l L)" by blast
    have "chase N (state_at l N k) = chase N (state_at l N (Suc k))"
      by (subst chase.simps) (simp add: body lenv q visited_state_at False)
    with L show ?thesis by (intro exI[of _ L]) simp
  qed
qed

text \<open>The hop at which the chain first returns to a slot it has already visited.\<close>

lemma walk_prefix_distinct: "distinct (walk l m) \<Longrightarrow> k \<le> m \<Longrightarrow> distinct (walk l k)"
proof -
  assume d: "distinct (walk l m)" and km: "k \<le> m"
  have "walk l k = take k (walk l m)"
    using km by (simp add: walk_def take_map)
  with d show ?thesis by simp
qed

lemma first_return_unique:
  assumes "distinct (walk l L)" "hop l L \<in> set (walk l L)"
    and "distinct (walk l M)" "hop l M \<in> set (walk l M)"
  shows "L = M"
proof -
  have no: "\<not> a < b" if "distinct (walk l b)" "hop l a \<in> set (walk l a)" for a b
  proof
    assume "a < b"
    then have "Suc a \<le> b" by simp
    with that(1) have "distinct (walk l (Suc a))"
      by (rule walk_prefix_distinct)
    with that(2) show False by (simp add: walk_Suc)
  qed
  from no[OF assms(3) assms(2)] no[OF assms(1) assms(4)] show ?thesis by simp
qed

lemma analyze_state_at:
  assumes "in_range l N" "0 < N"
  shows "\<exists>L. 0 < L \<and> L \<le> N \<and> analyze l N = Inr (state_at l N L)
           \<and> distinct (walk l L) \<and> hop l L \<in> set (walk l L)"
proof -
  have "distinct (walk l (Suc 0))" by (simp add: walk_def)
  from chase_state_at[OF assms this] show ?thesis
    by (simp add: analyze_def initial_state_at)
qed

lemma iterations_state_at:
  assumes "in_range l N" "0 < N"
  shows "iterations N n (initial_state l N) = Inr (state_at l N n)"
  by (induction n) (simp_all add: initial_state_at chase_body_state_at[OF assms])

lemma marks_state_at:
  assumes "in_range l N" "0 < N" "distinct (walk l k)"
  shows "length (filter id (visited (state_at l N k))) = k"
proof -
  have "length (filter id (visited (state_at l N k)))
      = length (filter (\<lambda>i. i \<in> set (walk l k)) [0..<N])"
    by (simp add: state_at_def filter_map comp_def)
  also have "\<dots> = card ({i. i \<in> set (walk l k)} \<inter> set [0..<N])"
    by (intro distinct_length_filter) simp
  also have "{i. i \<in> set (walk l k)} \<inter> set [0..<N] = set (walk l k)"
    using walk_bounded[OF assms(1,2), of k] by auto
  also have "card (set (walk l k)) = k"
    using assms(3) by (simp add: distinct_card length_walk)
  finally show ?thesis .
qed


section \<open>The generator\<close>

lemma rearranges_length: "rearranges g \<Longrightarrow> length (g ys) = length ys"
  unfolding rearranges_def by (metis size_mset)

lemma traversal_order_eq:
  assumes "2 \<le> N"
  shows "traversal_order g N = Inr (0 # g [1..<N - 1] @ [N - 1, 0])"
proof -
  define xs where "xs = [0..<N] @ [0]"
  have c: "\<not> ((1::int) < 0 \<or> int N - 1 < 1 \<or> int (length xs) < int N - 1)"
    using assms by (simp add: xs_def)
  have "traversal_order g N =
      Inr (take (nat 1) xs @ g (take (nat (int N - 1 - 1)) (drop (nat 1) xs))
           @ drop (nat (int N - 1)) xs)"
    unfolding traversal_order_def std_shuffle_def xs_def[symmetric]
    using c by (simp only: if_False)
  moreover have "take (nat 1) xs = [0]"
    using assms by (intro nth_equalityI) (auto simp: xs_def nth_append)
  moreover have "take (nat (int N - 1 - 1)) (drop (nat 1) xs) = [1..<N - 1]"
    using assms by (intro nth_equalityI) (auto simp: xs_def nth_append)
  moreover have "drop (nat (int N - 1)) xs = [N - 1, 0]"
    using assms by (intro nth_equalityI) (auto simp: xs_def nth_append nth_Cons')
  ultimately show ?thesis by simp
qed

lemma traversal_order_props:
  assumes "2 \<le> N" "rearranges g" "traversal_order g N = Inr t"
  shows "length t = N + 1" "t ! 0 = 0" "t ! (N - 1) = N - 1" "t ! N = 0"
    "mset (take (N - 2) (drop 1 t)) = mset [1..<N - 1]"
    "mset (take N t) = mset [0..<N]"
proof -
  define m where "m = g [1..<N - 1]"
  have t: "t = 0 # m @ [N - 1, 0]"
    using assms(3) unfolding m_def traversal_order_eq[OF assms(1)] by simp
  have "length m = length [1..<N - 1]"
    unfolding m_def by (rule rearranges_length[OF assms(2)])
  then have lm: "length m = N - 2" by simp
  have mm: "mset m = mset [1..<N - 1]"
    using assms(2) unfolding m_def rearranges_def by blast
  show "length t = N + 1" using assms(1) lm by (simp add: t)
  show "t ! 0 = 0" by (simp add: t)
  have l1: "length (0 # m) = N - 1" using assms(1) lm by simp
  have "t = (0 # m) @ (N - 1) # [0]" by (simp add: t)
  then have "t ! length (0 # m) = N - 1" by (simp only: nth_append_length)
  then show "t ! (N - 1) = N - 1" by (simp only: l1)
  have l2: "length (0 # m @ [N - 1]) = N" using assms(1) lm by simp
  have "t = (0 # m @ [N - 1]) @ 0 # []" by (simp add: t)
  then have "t ! length (0 # m @ [N - 1]) = 0" by (simp only: nth_append_length)
  then show "t ! N = 0" by (simp only: l2)
  show "mset (take (N - 2) (drop 1 t)) = mset [1..<N - 1]"
    using lm mm by (simp add: t)
  have "take N t = 0 # m @ [N - 1]"
    using assms(1) lm by (cases N) (simp_all add: t)
  moreover have "[0..<N] = 0 # [1..<N - 1] @ [N - 1]"
    using assms(1) by (intro nth_equalityI) (auto simp: nth_Cons' nth_append)
  ultimately show "mset (take N t) = mset [0..<N]"
    using mm by simp
qed

lemma implement_order_spec:
  assumes len: "length t = N + 1" "length l = N"
    and dist: "distinct (take N t)"
    and rng: "\<forall>i<N. t ! i < N"
    and n: "n \<le> N"
  shows "\<exists>l'. implement_order t n l = Inr l' \<and> length l' = N
           \<and> (\<forall>i<n. l' ! (t ! i) = t ! Suc i)"
  using n
proof (induction n)
  case 0
  then show ?case by (simp add: len)
next
  case (Suc n)
  then obtain l' where l': "implement_order t n l = Inr l'" "length l' = N"
    "\<forall>i<n. l' ! (t ! i) = t ! Suc i" by auto
  have nN: "n < N" using Suc.prems by simp
  have tn: "t ! n < N" using rng nN by simp
  have ne: "t ! i \<noteq> t ! n" if "i < n" for i
  proof -
    have "take N t ! i \<noteq> take N t ! n"
      using dist that nN len by (simp add: nth_eq_iff_index_eq del: nth_take)
    then show ?thesis using that nN by simp
  qed
  have "implement_order t (Suc n) l = Inr (l'[t ! n := t ! Suc n])"
    using l' nN tn len by simp
  moreover have "\<forall>i<Suc n. (l'[t ! n := t ! Suc n]) ! (t ! i) = t ! Suc i"
  proof (intro allI impI)
    fix i assume i: "i < Suc n"
    show "(l'[t ! n := t ! Suc n]) ! (t ! i) = t ! Suc i"
    proof (cases "i = n")
      case True
      then show ?thesis using tn l'(2) by simp
    next
      case False
      with i have "i < n" by simp
      with ne[OF this] l'(3) show ?thesis by simp
    qed
  qed
  ultimately show ?case using l'(2) by simp
qed

lemma follows_order_hamiltonian:
  assumes N: "0 < N" and len: "length t = N + 1" "length l = N"
    and perm: "mset (take N t) = mset [0..<N]"
    and ends: "t ! 0 = 0" "t ! N = 0"
    and link: "\<forall>i<N. l ! (t ! i) = t ! Suc i"
  shows "hamiltonian l N" and "\<forall>k\<le>N. hop l k = t ! k"
proof -
  have dist: "distinct (take N t)"
    using perm by (metis distinct_upt mset_eq_imp_distinct_iff)
  have st: "set (take N t) = {..<N}"
    using mset_eq_setD[OF perm] by (simp add: lessThan_atLeast0)
  have tl: "t ! i < N" if "i \<le> N" for i
  proof (cases "i = N")
    case True
    then show ?thesis using ends N by simp
  next
    case False
    with that have i: "i < N" by simp
    then have "take N t ! i \<in> set (take N t)"
      using len by (intro nth_mem) simp
    then show ?thesis using i st by simp
  qed
  show hops: "\<forall>k\<le>N. hop l k = t ! k"
  proof (intro allI impI)
    fix k show "k \<le> N \<Longrightarrow> hop l k = t ! k"
    proof (induction k)
      case 0
      then show ?case by (simp add: hop_0 ends)
    next
      case (Suc k)
      then show ?case using link by (simp add: hop_Suc)
    qed
  qed
  have "list_all (\<lambda>x. x < N) l"
    unfolding list_all_length
  proof (intro allI impI)
    fix x assume "x < length l"
    then have "x \<in> set (take N t)" using st len by simp
    then obtain i where i: "i < N" "take N t ! i = x"
      using len by (auto simp: in_set_conv_nth)
    then have "l ! x = t ! Suc i" using link by auto
    then show "l ! x < N" using tl[of "Suc i"] i by simp
  qed
  then have inr: "in_range l N" by (simp add: in_range_def len)
  have "walk l N = take N t"
    using hops len by (intro nth_equalityI) (simp_all add: walk_def)
  then have "distinct (walk l N)" using dist by simp
  moreover have "hop l N = 0" using hops ends by simp
  ultimately show "hamiltonian l N" using N inr by (simp add: hamiltonian_def)
qed

lemma getlist_spec:
  assumes "2 \<le> N" "rearranges g"
  shows "\<exists>t l. traversal_order g N = Inr t \<and> getlist g junk N = Inr l
           \<and> length l = N \<and> (\<forall>i<N. l ! (t ! i) = t ! Suc i)"
proof -
  obtain t where t: "traversal_order g N = Inr t"
    using traversal_order_eq[OF assms(1)] by blast
  note tp = traversal_order_props[OF assms t]
  have dist: "distinct (take N t)"
    using tp(6) by (metis distinct_upt mset_eq_imp_distinct_iff)
  have "set (take N t) = {..<N}"
    using mset_eq_setD[OF tp(6)] by (simp add: lessThan_atLeast0)
  then have rng: "\<forall>i<N. t ! i < N"
    using tp(1) by (metis lessThan_iff less_add_one nth_mem nth_take length_take min.absorb2 less_imp_le_nat)
  have "length (permutated_list_generator junk N) = N"
    by (simp add: permutated_list_generator_def)
  from implement_order_spec[OF tp(1) this dist rng order_refl] t show ?thesis
    by (auto simp: getlist_def)
qed

lemma hamiltonian_full_cycle:
  assumes "hamiltonian l N"
  shows "analyze l N = Inr (state_at l N N)"
proof -
  from assms have N: "0 < N" and inr: "in_range l N" and d: "distinct (walk l N)"
    and ret: "hop l N = 0" by (simp_all add: hamiltonian_def)
  from analyze_state_at[OF inr N] obtain L where L: "analyze l N = Inr (state_at l N L)"
    "distinct (walk l L)" "hop l L \<in> set (walk l L)" by blast
  have "hop l 0 \<in> set (walk l N)" using N by (auto simp: set_walk)
  then have "hop l N \<in> set (walk l N)" by (simp add: ret hop_0)
  from first_return_unique[OF L(2,3) d this] L(1) show ?thesis by simp
qed

section \<open>What the chase leaves unchanged\<close>

lemma sum_list_increment:
  "i < length xs \<Longrightarrow> sum_list (xs[i := xs ! i + 1]) = sum_list xs + (1::int)"
proof (induction xs arbitrary: i)
  case Nil
  then show ?case by simp
next
  case (Cons x xs)
  then show ?case by (cases i) simp_all
qed

lemma chase_body_frame:
  assumes "chase_body N st = Inr st'"
  shows "list st' = list st"
    and "length (strides st') = length (strides st)"
    and "sum_list (strides st') - cyclelength st' = sum_list (strides st) - cyclelength st"
proof -
  define idx where "idx = int N + (int (list st ! p st) - int (p st))"
  from assms have ok: "0 \<le> idx" "idx < int (length (strides st))"
    and st': "st' = st\<lparr>visited := (visited st)[p st := True],
                       cyclelength := cyclelength st + 1,
                       strides := (strides st)[nat idx := strides st ! nat idx + 1],
                       p := list st ! p st\<rparr>"
    by (auto simp: chase_body_def Let_def idx_def split: if_splits)
  show "list st' = list st" by (simp add: st')
  show "length (strides st') = length (strides st)" by (simp add: st')
  have "nat idx < length (strides st)" using ok by simp
  from sum_list_increment[OF this]
  show "sum_list (strides st') - cyclelength st' = sum_list (strides st) - cyclelength st"
    by (simp add: st')
qed

lemma chase_frame:
  "chase N st = Inr st' \<Longrightarrow>
     list st' = list st \<and> length (strides st') = length (strides st)
     \<and> sum_list (strides st') - cyclelength st' = sum_list (strides st) - cyclelength st"
proof (induction N st rule: chase.induct)
  case (1 N st)
  from "1.prems" obtain st1 where body: "chase_body N st = Inr st1"
    by (subst (asm) chase.simps) (auto split: sum.splits)
  note fr = chase_body_frame[OF body]
  from "1.prems" body have inb: "p st1 < length (visited st1)"
    by (subst (asm) chase.simps) (auto split: if_splits)
  show ?case
  proof (cases "visited st1 ! p st1")
    case True
    with "1.prems" body inb have "st' = st1"
      by (subst (asm) chase.simps) simp
    with fr show ?thesis by simp
  next
    case False
    with "1.prems" body inb have "chase N st1 = Inr st'"
      by (subst (asm) chase.simps) simp
    from "1.IH"[OF body _ False this] inb fr show ?thesis by simp
  qed
qed

lemma strides_state_at:
  "j < 2 * N \<Longrightarrow>
     strides (state_at l N k) ! j = int (count_list (map (stride_index l N) (walk l k)) j)"
  by (simp add: state_at_def)

section \<open>Chains that return early\<close>







section \<open>Rounding\<close>

lemma bitlen_pos: "0 < n \<Longrightarrow> 0 < bitlen n"
  by (simp add: bitlen.simps[of n])

lemma bitlen_upper: "n < 2 ^ bitlen n"
proof (induction n rule: bitlen.induct)
  case (1 n)
  show ?case
  proof (cases "n \<le> 0")
    case True
    then show ?thesis by (simp add: bitlen.simps[of n])
  next
    case False
    from "1.IH"[OF False] have "n div 2 < 2 ^ bitlen (n div 2)" .
    then have "n < 2 * 2 ^ bitlen (n div 2)" by simp
    with False show ?thesis by (simp add: bitlen.simps[of n])
  qed
qed

lemma bitlen_lower: "0 < n \<Longrightarrow> 2 ^ (bitlen n - 1) \<le> n"
proof (induction n rule: bitlen.induct)
  case (1 n)
  from "1.prems" have n0: "\<not> n \<le> 0" by simp
  show ?case
  proof (cases "n div 2 \<le> 0")
    case True
    then have "bitlen (n div 2) = 0" by (simp add: bitlen.simps[of "n div 2"])
    with n0 "1.prems" show ?thesis by (simp add: bitlen.simps[of n])
  next
    case False
    then have h: "0 < n div 2" by simp
    from "1.IH"[OF n0 h] have a: "2 ^ (bitlen (n div 2) - 1) \<le> n div 2" .
    have "0 < bitlen (n div 2)" using h by (rule bitlen_pos)
    then have "(2::int) ^ bitlen (n div 2) = 2 * 2 ^ (bitlen (n div 2) - 1)"
      by (cases "bitlen (n div 2)") simp_all
    also have "\<dots> \<le> 2 * (n div 2)" using a by simp
    also have "\<dots> \<le> n" by simp
    finally show ?thesis using n0 by (simp add: bitlen.simps[of n])
  qed
qed

lemma binade_lower:
  assumes "0 < x"
  shows "2 powi binade x \<le> x"
proof (cases "1 \<le> x")
  case True
  define n where "n = \<lfloor>x\<rfloor>"
  have n: "0 < n" using True by (simp add: n_def)
  have b: "binade x = int (bitlen n - 1)"
    using bitlen_pos[OF n] True assms by (simp add: binade_def n_def)
  have "(2::rat) powi binade x = of_int (2 ^ (bitlen n - 1))"
    unfolding b by simp
  also have "\<dots> \<le> of_int n"
    using bitlen_lower[OF n] by (simp only: of_int_le_iff)
  also have "\<dots> \<le> x" unfolding n_def by simp
  finally show ?thesis .
next
  case False
  define y where "y = \<lceil>1 / x\<rceil>"
  define k where "k = bitlen (y - 1)"
  have b: "binade x = - int k"
    using False assms by (simp add: binade_def y_def k_def)
  have "y - 1 < 2 ^ k" unfolding k_def by (rule bitlen_upper)
  then have "y \<le> 2 ^ k" by simp
  then have le2: "(of_int y :: rat) \<le> of_int (2 ^ k)" by (simp only: of_int_le_iff)
  have "1 / x \<le> of_int y" unfolding y_def by simp
  from this le2 have "1 / x \<le> of_int (2 ^ k)" by (rule order_trans)
  then have "1 / x \<le> 2 ^ k" by simp
  then have "1 \<le> 2 ^ k * x" using assms by (simp add: pos_divide_le_eq)
  then have "1 / 2 ^ k \<le> x" by (simp add: pos_divide_le_eq mult.commute)
  then show ?thesis unfolding b by (simp add: power_int_minus_divide)
qed

lemma binade_upper:
  assumes "0 < x"
  shows "x < 2 powi (binade x + 1)"
proof (cases "1 \<le> x")
  case True
  define n where "n = \<lfloor>x\<rfloor>"
  have n: "0 < n" using True by (simp add: n_def)
  have b: "binade x + 1 = int (bitlen n)"
    using True assms by (simp add: binade_def n_def)
  have "n + 1 \<le> 2 ^ bitlen n" using bitlen_upper[of n] by simp
  then have le: "(of_int (n + 1) :: rat) \<le> of_int (2 ^ bitlen n)"
    by (simp only: of_int_le_iff)
  have "x < of_int (n + 1)" unfolding n_def by linarith
  from this le have "x < of_int (2 ^ bitlen n)" by (rule order_less_le_trans)
  then show ?thesis unfolding b by simp
next
  case False
  then have x1: "x < 1" by simp
  define y where "y = \<lceil>1 / x\<rceil>"
  define k where "k = bitlen (y - 1)"
  have b: "binade x = - int k"
    using False assms by (simp add: binade_def y_def k_def)
  have "1 < 1 / x" using assms x1 by simp
  then have c: "1 < y" unfolding y_def by (simp only: less_ceiling_iff of_int_1)
  then have y1: "0 < y - 1" by simp
  from bitlen_lower[OF y1] have "2 ^ (k - 1) \<le> y - 1" by (simp add: k_def)
  then have a1: "(of_int (2 ^ (k - 1)) :: rat) \<le> of_int (y - 1)" by (simp only: of_int_le_iff)
  have a3: "(of_int (y - 1) :: rat) < 1 / x" unfolding y_def by linarith
  from a1 a3 have "(of_int (2 ^ (k - 1)) :: rat) < 1 / x" by (rule order_le_less_trans)
  then have "2 ^ (k - 1) < 1 / x" by simp
  then have "2 ^ (k - 1) * x < 1" using assms by (simp add: pos_less_divide_eq)
  then have lt: "x < 1 / 2 ^ (k - 1)" by (simp add: pos_less_divide_eq mult.commute)
  have "0 < k" unfolding k_def using y1 by (rule bitlen_pos)
  then have "- int k + 1 = - int (k - 1)" by simp
  then have "(2::rat) powi (binade x + 1) = 1 / 2 ^ (k - 1)"
    unfolding b by (simp only: power_int_minus_divide power_int_of_nat)
  with lt show ?thesis by simp
qed

lemma round_to_even_of_int: "round_to_even (of_int z) = z"
  by (simp add: round_to_even_def)



text \<open>The unit in the last place of \<open>x\<close> at precision \<open>prec\<close>.\<close>

lemma ulp_divides:
  assumes "0 < x" "x < 2 powi (k + int prec)"
  shows "\<exists>t. (2::rat) powi k = of_int (2 ^ t) * 2 powi (binade x - int prec + 1)"
proof -
  have "binade x < k + int prec"
  proof (rule ccontr)
    assume "\<not> binade x < k + int prec"
    then have "(2::rat) powi (k + int prec) \<le> 2 powi binade x"
      by (intro power_int_increasing) simp_all
    also have "\<dots> \<le> x" by (rule binade_lower[OF assms(1)])
    finally show False using assms(2) by simp
  qed
  then have d: "0 \<le> k - (binade x - int prec + 1)" by simp
  define t where "t = nat (k - (binade x - int prec + 1))"
  have "k = int t + (binade x - int prec + 1)" using d by (simp add: t_def)
  then have "(2::rat) powi k = 2 powi (int t + (binade x - int prec + 1))" by simp
  also have "\<dots> = 2 powi int t * 2 powi (binade x - int prec + 1)"
    by (rule power_int_add) simp
  finally show ?thesis by (intro exI[of _ t]) simp
qed

lemma fl_round_exact:
  assumes "0 < x" "x = of_int M * 2 powi k" "x < 2 powi (k + int prec)"
  shows "fl_round prec x = x"
proof -
  define u :: rat where "u = 2 powi (binade x - int prec + 1)"
  have u: "0 < u" by (simp add: u_def)
  from ulp_divides[OF assms(1,3)] obtain t where t: "(2::rat) powi k = of_int (2 ^ t) * u"
    unfolding u_def by blast
  have "x / u = of_int (M * 2 ^ t)" using u by (simp add: assms(2) t)
  then have "round_to_even (x / u) = M * 2 ^ t" by (simp only: round_to_even_of_int)
  then have "fl_round prec x = of_int (M * 2 ^ t) * u"
    using assms(1) by (simp add: fl_round_def u_def Let_def)
  also have "\<dots> = x" by (simp add: assms(2) t)
  finally show ?thesis .
qed



lemma to_double_of_nat:
  assumes "n < 2 ^ 53"
  shows "to_double (of_nat n) = of_nat n"
proof (cases "n = 0")
  case True
  then show ?thesis by (simp add: to_double_def fl_round_def)
next
  case False
  have "(of_nat n :: rat) < of_nat (2 ^ 53)" using assms by (simp only: of_nat_less_iff)
  then have "(of_nat n :: rat) < 2 powi (0 + int 53)" by simp
  moreover have "(of_nat n :: rat) = of_int (int n) * 2 powi 0" by simp
  moreover have "0 < (of_nat n :: rat)" using False by simp
  ultimately show ?thesis unfolding to_double_def by (intro fl_round_exact[of _ "int n" 0])
qed

lemma to_double_100: "to_double 100 = 100"
  using to_double_of_nat[of 100] by simp

lemma to_float_100: "to_float 100 = 100"
proof -
  have "(100::rat) = of_int 100 * 2 powi 0" by simp
  moreover have "(100::rat) < 2 powi (0 + int 24)" by simp
  ultimately show ?thesis unfolding to_float_def by (intro fl_round_exact[of _ 100 0]) simp_all
qed

section \<open>The coverage\<close>

lemma covered_full:
  assumes "0 < N" "N < 2 ^ 31" "cyclelength st = int N"
  shows "covered st N = 100"
proof -
  have "100 * N < 2 ^ 53" using assms(2) by simp
  from to_double_of_nat[OF this]
  have "to_double (100 * of_nat N) = 100 * of_nat N" by simp
  then have "to_double (100 * of_int (cyclelength st)) / of_nat N = 100"
    using assms(1) by (simp add: assms(3))
  then show ?thesis by (simp add: covered_def to_double_100 to_float_100)
qed


text \<open>
  With 26214399 of 26214400 slots visited the quotient lies half a unit in the last
  place of a \<open>float\<close> below 100, and is stored as 100.
\<close>

lemma covered_rounds_to_100:
  "covered \<lparr>list = [], visited = [], strides = [], cyclelength = 26214399, p = 0\<rparr> 26214400
     = 100"
proof -
  have "to_float (to_double (to_double (100 * 26214399) / 26214400)) = 100"
    by code_simp
  then show ?thesis by (simp add: covered_def)
qed

section \<open>The histogram\<close>

lemma int_cast_mono: "x \<le> y \<Longrightarrow> int_cast x \<le> int_cast y"
proof -
  assume xy: "x \<le> y"
  show ?thesis
  proof (cases "0 \<le> x")
    case True
    with xy show ?thesis by (simp add: int_cast_def floor_mono)
  next
    case False
    then have x: "x < 0" by simp
    show ?thesis
    proof (cases "0 \<le> y")
      case True
      from x have a: "\<lceil>x\<rceil> \<le> 0" by (simp add: ceiling_le_iff)
      from True have b: "0 \<le> \<lfloor>y\<rfloor>" by simp
      have "\<lceil>x\<rceil> \<le> \<lfloor>y\<rfloor>" by (rule order_trans[OF a b])
      moreover have "int_cast x = \<lceil>x\<rceil>" "int_cast y = \<lfloor>y\<rfloor>"
        using x True by (simp_all add: int_cast_def)
      ultimately show ?thesis by (simp only:)
    next
      case False
      with x xy show ?thesis by (simp add: int_cast_def ceiling_mono)
    qed
  qed
qed

lemma int_cast_of_int: "int_cast (of_int z) = z"
  by (simp add: int_cast_def)

lemma bucket_bound_0: "bucket_bound N 0 = - int N"
proof -
  have "bucket_bound N 0 = int_cast (of_int (- int N))"
    by (simp add: bucket_bound_def)
  then show ?thesis by (simp only: int_cast_of_int)
qed

lemma bucket_bound_20: "bucket_bound N 20 = int N"
proof -
  have "bucket_bound N 20 = int_cast (of_int (int N))"
    by (simp add: bucket_bound_def)
  then show ?thesis by (simp only: int_cast_of_int)
qed

lemma bucket_bound_mono: "i \<le> j \<Longrightarrow> bucket_bound N i \<le> bucket_bound N j"
  unfolding bucket_bound_def
  by (intro int_cast_mono add_left_mono mult_left_mono) simp_all

lemma add_strides_sum:
  "0 \<le> j \<Longrightarrow> nat j + n \<le> length s \<Longrightarrow>
     add_strides s j n h = Inr (h + sum_list (take n (drop (nat j) s)))"
proof (induction n arbitrary: j h)
  case 0
  then show ?case by simp
next
  case (Suc n)
  have j: "nat j < length s" using Suc.prems by simp
  have "nat (j + 1) = Suc (nat j)" using Suc.prems by simp
  moreover have "add_strides s (j + 1) n (h + s ! nat j)
      = Inr (h + s ! nat j + sum_list (take n (drop (nat (j + 1)) s)))"
    using Suc.prems by (intro Suc.IH) simp_all
  moreover have "drop (nat j) s = s ! nat j # drop (Suc (nat j)) s"
    using j by (simp add: Cons_nth_drop_Suc)
  ultimately show ?case using Suc.prems j by simp
qed

lemma collect_map_Inr:
  "(\<And>x. x \<in> set xs \<Longrightarrow> f x = Inr (h x)) \<Longrightarrow> collect (map f xs) = Inr (map h xs)"
  by (induction xs) simp_all

lemma maxAmount_ge:
  fixes hist :: "int list"
  shows "a \<le> foldl (\<lambda>m h. if h > m then h else m) a hist"
    and "x \<in> set hist \<Longrightarrow> x \<le> foldl (\<lambda>m h. if h > m then h else m) a hist"
proof (induction hist arbitrary: a)
  case Nil
  { case 1 show ?case by simp }
  { case 2 then show ?case by simp }
next
  case (Cons y ys)
  { case 1
    have "a \<le> (if y > a then y else a)" by simp
    also have "\<dots> \<le> foldl (\<lambda>m h. if h > m then h else m) (if y > a then y else a) ys"
      by (rule Cons.IH(1))
    finally show ?case by simp }
  { case 2
    show ?case
    proof (cases "x = y")
      case True
      have "x \<le> (if y > a then y else a)" using True by simp
      also have "\<dots> \<le> foldl (\<lambda>m h. if h > m then h else m) (if y > a then y else a) ys"
        by (rule Cons.IH(1))
      finally show ?thesis by simp
    next
      case False
      with 2 have "x \<in> set ys" by simp
      from Cons.IH(2)[OF this] show ?thesis by simp
    qed }
qed

lemma maxAmount_pos:
  assumes "1 \<le> sum_list hist"
  shows "0 < maxAmount hist"
proof -
  have "\<exists>x\<in>set hist. 1 \<le> x"
  proof (rule ccontr)
    assume "\<not> (\<exists>x\<in>set hist. 1 \<le> x)"
    then have "\<forall>x\<in>set hist. x \<le> 0" by auto
    then have "sum_list hist \<le> 0" by (induction hist) auto
    with assms show False by simp
  qed
  then obtain x where "x \<in> set hist" "1 \<le> x" by blast
  with maxAmount_ge(2)[of x hist 0] show ?thesis by (simp add: maxAmount_def)
qed


lemma bucket_bound_range:
  assumes "i \<le> 20"
  shows "0 \<le> bucket_bound N i + int N" "bucket_bound N i + int N \<le> 2 * int N"
proof -
  have "bucket_bound N 0 \<le> bucket_bound N i" by (rule bucket_bound_mono) simp
  then show "0 \<le> bucket_bound N i + int N" by (simp add: bucket_bound_0)
  have "bucket_bound N i \<le> bucket_bound N 20" using assms by (rule bucket_bound_mono)
  then show "bucket_bound N i + int N \<le> 2 * int N" by (simp add: bucket_bound_20)
qed

lemma hist_bucket_sum:
  assumes "length s = 2 * N" "i < 20"
  shows "hist_bucket s N i =
     Inr (sum_list (take (nat (bucket_bound N (Suc i) + int N) - nat (bucket_bound N i + int N))
                         (drop (nat (bucket_bound N i + int N)) s)))"
proof -
  have lo: "0 \<le> bucket_bound N i + int N"
    using assms(2) by (intro bucket_bound_range) simp
  have hi: "bucket_bound N (Suc i) + int N \<le> 2 * int N"
    using assms(2) by (intro bucket_bound_range) simp
  have le: "bucket_bound N i \<le> bucket_bound N (Suc i)"
    by (rule bucket_bound_mono) simp
  have n: "nat (bucket_bound N (i + 1) - bucket_bound N i)
      = nat (bucket_bound N (Suc i) + int N) - nat (bucket_bound N i + int N)"
    using lo le by simp
  have "nat (bucket_bound N i + int N)
      + (nat (bucket_bound N (Suc i) + int N) - nat (bucket_bound N i + int N)) \<le> length s"
    using lo hi le assms(1) by simp
  from add_strides_sum[OF lo this, of 0] show ?thesis
    unfolding hist_bucket_def n by simp
qed

lemma bucket_sums_concat:
  fixes s :: "int list"
  assumes mono: "\<And>i. lo i \<le> lo (Suc i)"
  shows "sum_list (map (\<lambda>i. sum_list (take (lo (Suc i) - lo i) (drop (lo i) s))) [0..<n])
           = sum_list (take (lo n - lo 0) (drop (lo 0) s))"
proof (induction n)
  case 0
  show ?case by simp
next
  case (Suc n)
  have le: "lo 0 \<le> lo n" by (induction n) (auto intro: order_trans[OF _ mono])
  have "take (lo (Suc n) - lo 0) (drop (lo 0) s)
      = take ((lo n - lo 0) + (lo (Suc n) - lo n)) (drop (lo 0) s)"
    using le mono[of n] by simp
  also have "\<dots> = take (lo n - lo 0) (drop (lo 0) s)
      @ take (lo (Suc n) - lo n) (drop (lo n - lo 0) (drop (lo 0) s))"
    by (rule take_add)
  also have "drop (lo n - lo 0) (drop (lo 0) s) = drop (lo n) s"
    using le by simp
  finally show ?case using Suc.IH by simp
qed

lemma buckets_total:
  assumes "length s = 2 * N"
  shows "\<exists>hist. buckets s N = Inr hist \<and> length hist = 20 \<and> sum_list hist = sum_list s"
proof -
  define lo where "lo i = nat (bucket_bound N i + int N)" for i
  define hist where
    "hist = map (\<lambda>i. sum_list (take (lo (Suc i) - lo i) (drop (lo i) s))) [0..<20]"
  have "buckets s N = Inr hist"
    unfolding buckets_def hist_def lo_def
    by (intro collect_map_Inr hist_bucket_sum[OF assms]) simp
  moreover have "length hist = 20" by (simp add: hist_def)
  moreover have "sum_list hist = sum_list s"
  proof -
    have mono: "lo i \<le> lo (Suc i)" for i
      unfolding lo_def by (intro nat_mono add_right_mono bucket_bound_mono) simp
    have "lo 0 = 0" by (simp add: lo_def bucket_bound_0)
    moreover have "lo 20 = 2 * N" by (simp add: lo_def bucket_bound_20)
    ultimately show ?thesis
      unfolding hist_def bucket_sums_concat[of lo s 20, OF mono] using assms by simp
  qed
  ultimately show ?thesis by blast
qed

lemma analyze_strides_length:
  assumes "analyze l N = Inr st"
  shows "length (strides st) = 2 * N"
  using chase_frame[OF assms[unfolded analyze_def]] by (simp add: initial_state_def)

lemma analyze_strides_sum:
  assumes "analyze l N = Inr st"
  shows "sum_list (strides st) = cyclelength st"
  using chase_frame[OF assms[unfolded analyze_def]]
  by (simp add: initial_state_def sum_list_replicate)

text \<open>After a chase at least one stride has been counted, so \<open>maxAmount\<close> is positive.\<close>

lemma maxAmount_after_chase:
  assumes "in_range l N" "0 < N" "analyze l N = Inr st"
  shows "\<exists>hist. buckets (strides st) N = Inr hist \<and> 0 < maxAmount hist"
proof -
  from analyze_state_at[OF assms(1,2)] assms(3) obtain L where
    L: "0 < L" "st = state_at l N L" by auto
  then have "1 \<le> cyclelength st" by (simp add: state_at_def)
  then have pos: "1 \<le> sum_list (strides st)"
    by (simp add: analyze_strides_sum[OF assms(3)])
  from buckets_total[OF analyze_strides_length[OF assms(3)]] obtain hist where
    h: "buckets (strides st) N = Inr hist" "sum_list hist = sum_list (strides st)" by blast
  from pos h(2) have "0 < maxAmount hist" by (intro maxAmount_pos) simp
  with h(1) show ?thesis by blast
qed


section \<open>Properties of the generator and of the test\<close>

text \<open>
  C1. For every \<open>N \<ge> 3\<close> (\<open>N\<close> is an \<open>int\<close>, so \<open>N < 2\<^sup>3\<^sup>1\<close>) and every outcome \<open>g\<close>
  of the shuffle (and whatever the freshly allocated array held), the array returned by
  the shuffle generator is a single cycle through all \<open>N\<close> slots, and the chase from
  slot 0 ends with \<open>cyclelength = N\<close> and a coverage of 100 percent.
\<close>

theorem shuffle_generator_single_cycle:
  assumes "3 \<le> N" "N < 2 ^ 31" "rearranges g"
  shows "\<exists>l st. getlist g junk N = Inr l \<and> hamiltonian l N
           \<and> analyze l N = Inr st \<and> cyclelength st = int N \<and> covered st N = 100"
proof -
  have N2: "2 \<le> N" using assms(1) by simp
  from getlist_spec[OF N2 assms(3)] obtain t l where
    t: "traversal_order g N = Inr t" and l: "getlist g junk N = Inr l" "length l = N"
    "\<forall>i<N. l ! (t ! i) = t ! Suc i" by blast
  note tp = traversal_order_props[OF N2 assms(3) t]
  have N: "0 < N" using assms(1) by simp
  have ham: "hamiltonian l N"
    by (rule follows_order_hamiltonian(1)[OF N tp(1) l(2) tp(6) tp(2) tp(4) l(3)])
  have an: "analyze l N = Inr (state_at l N N)"
    by (rule hamiltonian_full_cycle[OF ham])
  have cl: "cyclelength (state_at l N N) = int N" by (simp add: state_at_def)
  have "covered (state_at l N N) N = 100"
    by (rule covered_full[OF N assms(2) cl])
  with l(1) ham an cl show ?thesis by blast
qed

theorem shuffle_generator_single_cycle_witness:
  "(3::nat) \<le> 5 \<and> (5::nat) < 2 ^ 31 \<and> rearranges (rev :: nat list \<Rightarrow> nat list)
   \<and> (\<exists>l st. getlist rev id 5 = Inr l \<and> hamiltonian l 5
           \<and> analyze l 5 = Inr st \<and> cyclelength st = 5 \<and> covered st 5 = 100)"
  using shuffle_generator_single_cycle[of 5 rev id] by (simp add: rearranges_def)



text \<open>
  C2. For every array of \<open>N \<ge> 1\<close> slots that all refer to slots \<open>0..N-1\<close>, the chase
  loop ends without a fault after \<open>n\<close> executions of its body, where
  \<open>1 \<le> n \<le> N\<close>; \<open>cyclelength\<close> is \<open>n\<close>, and exactly \<open>n\<close> slots are marked visited
  (every execution marks one slot that was not marked, and no mark is ever removed).
\<close>

theorem chase_terminates_within_N:
  assumes "in_range l N" "0 < N"
  shows "\<exists>st n. analyze l N = Inr st \<and> 1 \<le> n \<and> n \<le> N
           \<and> iterations N n (initial_state l N) = Inr st
           \<and> cyclelength st = int n \<and> length (filter id (visited st)) = n"
proof -
  from analyze_state_at[OF assms] obtain L where L: "0 < L" "L \<le> N"
    "analyze l N = Inr (state_at l N L)" "distinct (walk l L)" by blast
  have "cyclelength (state_at l N L) = int L" by (simp add: state_at_def)
  with L iterations_state_at[OF assms, of L] marks_state_at[OF assms L(4)]
  show ?thesis by (intro exI[of _ "state_at l N L"] exI[of _ L]) simp
qed

theorem chase_terminates_within_N_witness:
  "in_range [1, 1, 0] 3 \<and> (0::nat) < 3
   \<and> (\<exists>st n. analyze [1, 1, 0] 3 = Inr st \<and> 1 \<le> n \<and> n \<le> 3
           \<and> iterations 3 n (initial_state [1, 1, 0] 3) = Inr st
           \<and> cyclelength st = int n \<and> length (filter id (visited st)) = n)"
  using chase_terminates_within_N[of "[1, 1, 0]" 3] by (simp add: in_range_def)

text \<open>
  C3. In the shuffle generator (\<open>N \<ge> 2\<close>), the shuffle is applied to the positions
  \<open>1..N-2\<close> of \<open>traversal_order\<close>, which hold \<open>1, ..., N-2\<close>, and to nothing else:
  afterwards \<open>traversal_order\<close> is \<open>0\<close>, then the outcome \<open>g\<close> of the shuffle on
  \<open>1, ..., N-2\<close>, then \<open>N-1\<close> and \<open>0\<close>. So the positions \<open>0\<close>, \<open>N-1\<close> and \<open>N\<close> are
  as they were, \<open>traversal_order[0] = traversal_order[N] = 0\<close>, and the elements at the
  positions \<open>1..N-1\<close> are a permutation of \<open>1, ..., N-1\<close>.
\<close>

theorem shuffle_keeps_traversal_invariant:
  assumes "2 \<le> N" "rearranges g"
  shows "\<exists>t. traversal_order g N = Inr t
           \<and> t = 0 # g [1..<N - 1] @ [N - 1, 0]
           \<and> take (N - 2) (drop 1 t) = g (take (N - 2) (drop 1 ([0..<N] @ [0])))
           \<and> length t = N + 1
           \<and> t ! 0 = 0 \<and> t ! (N - 1) = N - 1 \<and> t ! N = 0
           \<and> mset (take (N - 2) (drop 1 t)) = mset [1..<N - 1]
           \<and> mset (take (N - 1) (drop 1 t)) = mset [1..<N]"
proof -
  define t where "t = 0 # g [1..<N - 1] @ [N - 1, 0]"
  have t: "traversal_order g N = Inr t"
    unfolding t_def by (rule traversal_order_eq[OF assms(1)])
  note tp = traversal_order_props[OF assms t]
  have "length (g [1..<N - 1]) = length [1..<N - 1]"
    by (rule rearranges_length[OF assms(2)])
  then have lg: "length (g [1..<N - 1]) = N - 2" by simp
  have mid: "take (N - 2) (drop 1 t) = g [1..<N - 1]"
    using lg by (simp add: t_def)
  have "take (N - 2) (drop 1 ([0..<N] @ [0])) = [1..<N - 1]"
    using assms(1) by (intro nth_equalityI) (auto simp: nth_append)
  with mid have shuffled:
    "take (N - 2) (drop 1 t) = g (take (N - 2) (drop 1 ([0..<N] @ [0])))" by simp
  have "take N t = t ! 0 # take (N - 1) (drop 1 t)"
    using tp(1) assms(1) by (cases t; cases N) simp_all
  then have "mset (take N t) = add_mset 0 (mset (take (N - 1) (drop 1 t)))"
    by (simp add: tp(2))
  moreover have "mset [0..<N] = add_mset 0 (mset [1..<N])"
    using assms(1) by (simp add: upt_conv_Cons)
  ultimately have "mset (take (N - 1) (drop 1 t)) = mset [1..<N]"
    using tp(6) by simp
  with t shuffled tp show ?thesis unfolding t_def by blast
qed

theorem shuffle_keeps_traversal_invariant_witness:
  "(2::nat) \<le> 6 \<and> rearranges (rev :: nat list \<Rightarrow> nat list)
   \<and> (\<exists>t. traversal_order rev 6 = Inr t
           \<and> t = 0 # rev [1..<6 - 1] @ [6 - 1, 0]
           \<and> take (6 - 2) (drop 1 t) = rev (take (6 - 2) (drop 1 ([0..<6] @ [0])))
           \<and> length t = 6 + 1
           \<and> t ! 0 = 0 \<and> t ! (6 - 1) = 6 - 1 \<and> t ! 6 = 0
           \<and> mset (take (6 - 2) (drop 1 t)) = mset [1..<6 - 1]
           \<and> mset (take (6 - 1) (drop 1 t)) = mset [1..<6])"
proof -
  have r: "rearranges (rev :: nat list \<Rightarrow> nat list)" by (simp add: rearranges_def)
  have n: "(2::nat) \<le> 6" by simp
  from shuffle_keeps_traversal_invariant[OF n r] r n show ?thesis by blast
qed


text \<open>For \<open>N = 2\<close> the generator returns an array: no error is raised.\<close>

theorem small_sizes_counterexample: "getlist rev id 2 = Inr [1, 0]"
  by code_simp

text \<open>
  C4, as the code has it. The generator has no check of \<open>N\<close> and raises no error.
  For \<open>N = 2\<close> the shuffled range is empty and the generator returns the cycle
  \<open>0 \<rightarrow> 1 \<rightarrow> 0\<close>, whatever the shuffle would do. For \<open>N = 1\<close> it calls
  \<open>std::shuffle\<close> on a range whose end lies before its start: undefined behaviour,
  not a reported error.
\<close>

theorem small_sizes_no_error:
  assumes "rearranges g"
  shows "getlist g junk 2 = Inr [1, 0] \<and> hamiltonian [1, 0] 2
         \<and> getlist g junk 1 = Inl InvalidRange"
proof -
  have "mset (g []) = mset ([] :: nat list)" using assms unfolding rearranges_def by blast
  then have g: "g [] = []" by simp
  have t: "traversal_order g 2 = Inr [0, 1, 0]"
    using traversal_order_eq[of 2 g] by (simp add: g)
  have two: "(2::nat) = Suc (Suc 0)" by simp
  have gl: "getlist g junk 2 = Inr [1, 0]"
    unfolding getlist_def t by (simp add: two permutated_list_generator_def)
  have "hop [1, 0] 2 = 0" by (simp add: two hop_Suc hop_0)
  moreover have "walk [1, 0] 2 = [0, 1]" by (simp add: two walk_Suc walk_0 hop_Suc hop_0)
  ultimately have ham: "hamiltonian [1, 0] 2"
    by (simp add: hamiltonian_def in_range_def)
  have "getlist g junk 1 = Inl InvalidRange"
    by (simp add: getlist_def traversal_order_def std_shuffle_def)
  with gl ham show ?thesis by simp
qed

theorem small_sizes_no_error_witness:
  "rearranges (rev :: nat list \<Rightarrow> nat list)
   \<and> getlist rev id 2 = Inr [1, 0] \<and> hamiltonian [1, 0] 2
   \<and> getlist rev id 1 = Inl InvalidRange"
proof -
  have r: "rearranges (rev :: nat list \<Rightarrow> nat list)" by (simp add: rearranges_def)
  from small_sizes_no_error[OF r, of id] r show ?thesis by simp
qed

text \<open>
  C6. After every run of the chase that completes, the counts in the \<open>strides\<close> buffer
  add up to \<open>cyclelength\<close>: every execution of the loop body counts one stride. The
  20 buckets of the printed histogram partition the buffer, so their counts add up to
  \<open>cyclelength\<close> as well.
\<close>

theorem histogram_sums_to_cyclelength:
  assumes "analyze l N = Inr st"
  shows "sum_list (strides st) = cyclelength st
         \<and> (\<exists>hist. buckets (strides st) N = Inr hist \<and> sum_list hist = cyclelength st)"
proof -
  have total: "sum_list (strides st) = cyclelength st"
    by (rule analyze_strides_sum[OF assms])
  from buckets_total[OF analyze_strides_length[OF assms]] obtain hist where
    "buckets (strides st) N = Inr hist" "sum_list hist = sum_list (strides st)" by blast
  with total show ?thesis by simp
qed

theorem histogram_sums_to_cyclelength_witness:
  "analyze [1, 1, 0] 3 = Inr \<lparr>list = [1, 1, 0], visited = [True, True, False],
        strides = [0, 0, 0, 1, 1, 0], cyclelength = 2, p = 1\<rparr>
   \<and> sum_list [0, 0, 0, 1, 1, 0] = (2::int)
   \<and> (\<exists>hist. buckets [0, 0, 0, 1, 1, 0] 3 = Inr hist \<and> sum_list hist = 2)"
proof -
  have a: "analyze [1, 1, 0] 3 = Inr \<lparr>list = [1, 1, 0], visited = [True, True, False],
        strides = [0, 0, 0, 1, 1, 0], cyclelength = 2, p = 1\<rparr>"
    by code_simp
  from histogram_sums_to_cyclelength[OF a] a show ?thesis by simp
qed


text \<open>
  C7. For every array of \<open>N \<ge> 1\<close> slots that all refer to slots \<open>0..N-1\<close>, the chase
  completes without an access out of bounds, every stride it has counted lies in
  \<open>[-(N-1), N-1]\<close>, and for every slot the index \<open>N + stride\<close> lies in \<open>0..2N-1\<close>.
\<close>

theorem recorded_strides_in_range:
  assumes "in_range l N" "0 < N"
  shows "\<exists>st. analyze l N = Inr st \<and> length (strides st) = 2 * N
           \<and> (\<forall>j<2 * N. strides st ! j \<noteq> 0 \<longrightarrow>
                 - (int N - 1) \<le> int j - int N \<and> int j - int N \<le> int N - 1)
           \<and> (\<forall>q<N. - (int N - 1) \<le> int (l ! q) - int q
                 \<and> int (l ! q) - int q \<le> int N - 1
                 \<and> 0 \<le> int N + (int (l ! q) - int q)
                 \<and> int N + (int (l ! q) - int q) < 2 * int N)"
proof -
  from analyze_state_at[OF assms] obtain L where
    L: "analyze l N = Inr (state_at l N L)" by blast
  have len: "length (strides (state_at l N L)) = 2 * N"
    by (simp add: state_at_def)
  have hopb: "- (int N - 1) \<le> int (l ! q) - int q \<and> int (l ! q) - int q \<le> int N - 1
      \<and> 0 \<le> int N + (int (l ! q) - int q) \<and> int N + (int (l ! q) - int q) < 2 * int N"
    if "q < N" for q
    using in_range_nth[OF assms(1) that] that by simp
  have "- (int N - 1) \<le> int j - int N \<and> int j - int N \<le> int N - 1"
    if j: "j < 2 * N" and nz: "strides (state_at l N L) ! j \<noteq> 0" for j
  proof -
    from nz have "count_list (map (stride_index l N) (walk l L)) j \<noteq> 0"
      by (simp add: strides_state_at[OF j])
    then have "j \<in> set (map (stride_index l N) (walk l L))"
      by (simp add: count_list_0_iff)
    then obtain q where q: "q \<in> set (walk l L)" "j = stride_index l N q" by auto
    from q(1) walk_bounded[OF assms] have qN: "q < N" by auto
    from stride_index_bounds(3)[OF assms(1) qN] hopb[OF qN] q(2) show ?thesis by simp
  qed
  with L len hopb show ?thesis by blast
qed

theorem recorded_strides_in_range_witness:
  "in_range [2, 0, 1] 3 \<and> (0::nat) < 3
   \<and> (\<exists>st. analyze [2, 0, 1] 3 = Inr st \<and> length (strides st) = 2 * 3
           \<and> (\<forall>j<2 * 3. strides st ! j \<noteq> 0 \<longrightarrow>
                 - (int 3 - 1) \<le> int j - int 3 \<and> int j - int 3 \<le> int 3 - 1)
           \<and> (\<forall>q<3. - (int 3 - 1) \<le> int ([2, 0, 1] ! q) - int q
                 \<and> int ([2, 0, 1] ! q) - int q \<le> int 3 - 1
                 \<and> 0 \<le> int 3 + (int ([2, 0, 1] ! q) - int q)
                 \<and> int 3 + (int ([2, 0, 1] ! q) - int q) < 2 * int 3))"
proof -
  have a: "in_range [2, 0, 1] 3" by (simp add: in_range_def)
  have b: "(0::nat) < 3" by simp
  from recorded_strides_in_range[OF a b] a b show ?thesis by blast
qed

text \<open>
  C9. The chase never writes to the pointer array: the array in its final state is the
  array it was given, and a second run on that array gives the same final state
  (the same \<open>cyclelength\<close>, hence coverage, and the same \<open>strides\<close>).
\<close>

theorem analyze_leaves_list_alone:
  assumes "analyze l N = Inr st"
  shows "list st = l \<and> analyze (list st) N = Inr st"
proof -
  from chase_frame[OF assms[unfolded analyze_def]] have "list st = l"
    by (simp add: initial_state_def)
  with assms show ?thesis by simp
qed

theorem analyze_leaves_list_alone_witness:
  "analyze [1, 2, 0] 3 = Inr \<lparr>list = [1, 2, 0], visited = [True, True, True],
        strides = [0, 1, 0, 0, 2, 0], cyclelength = 3, p = 0\<rparr>
   \<and> analyze (list \<lparr>list = [1, 2, 0], visited = [True, True, True],
        strides = [0, 1, 0, 0, 2, 0], cyclelength = 3, p = 0\<rparr>) 3
     = Inr \<lparr>list = [1, 2, 0], visited = [True, True, True],
        strides = [0, 1, 0, 0, 2, 0], cyclelength = 3, p = 0\<rparr>"
proof -
  have a: "analyze [1, 2, 0] 3 = Inr \<lparr>list = [1, 2, 0], visited = [True, True, True],
        strides = [0, 1, 0, 0, 2, 0], cyclelength = 3, p = 0\<rparr>"
    by code_simp
  from analyze_leaves_list_alone[OF a] a show ?thesis by simp
qed

text \<open>
  C10. For every \<open>N \<ge> 3\<close> and every outcome of the shuffle, slot \<open>N-1\<close> of the
  generated array refers to slot 0, and the chase counts the stride \<open>-(N-1)\<close>, at
  index \<open>N - (N-1)\<close> of \<open>strides\<close>, at least once.
\<close>

theorem last_slot_points_to_first:
  assumes "3 \<le> N" "rearranges g"
  shows "\<exists>l st. getlist g junk N = Inr l \<and> l ! (N - 1) = 0
           \<and> analyze l N = Inr st
           \<and> 1 \<le> strides st ! nat (int N + - (int N - 1))"
proof -
  have N2: "2 \<le> N" using assms(1) by simp
  have N: "0 < N" using assms(1) by simp
  from getlist_spec[OF N2 assms(2)] obtain t l where
    t: "traversal_order g N = Inr t" and l: "getlist g junk N = Inr l" "length l = N"
    "\<forall>i<N. l ! (t ! i) = t ! Suc i" by blast
  note tp = traversal_order_props[OF N2 assms(2) t]
  have "l ! (t ! (N - 1)) = t ! Suc (N - 1)" using l(3) N by simp
  then have last: "l ! (N - 1) = 0" using tp(3,4) N by simp
  have ham: "hamiltonian l N"
    by (rule follows_order_hamiltonian(1)[OF N tp(1) l(2) tp(6) tp(2) tp(4) l(3)])
  have hops: "\<forall>k\<le>N. hop l k = t ! k"
    by (rule follows_order_hamiltonian(2)[OF N tp(1) l(2) tp(6) tp(2) tp(4) l(3)])
  have an: "analyze l N = Inr (state_at l N N)"
    by (rule hamiltonian_full_cycle[OF ham])
  have "hop l (N - 1) = N - 1" using hops tp(3) by simp
  then have "N - 1 \<in> set (walk l N)"
    using N by (auto simp: set_walk intro!: image_eqI[of _ _ "N - 1"])
  moreover have "stride_index l N (N - 1) = 1"
    unfolding stride_index_def last using N by simp
  ultimately have "1 \<in> set (map (stride_index l N) (walk l N))"
    by (auto intro!: image_eqI[of _ _ "N - 1"])
  then have "count_list (map (stride_index l N) (walk l N)) 1 \<noteq> 0"
    by (simp add: count_list_0_iff)
  moreover have "strides (state_at l N N) ! 1
      = int (count_list (map (stride_index l N) (walk l N)) 1)"
    using N2 by (intro strides_state_at) simp
  moreover have "nat (int N + - (int N - 1)) = 1" by simp
  ultimately have "1 \<le> strides (state_at l N N) ! nat (int N + - (int N - 1))"
    by simp
  with l(1) last an show ?thesis by blast
qed

theorem last_slot_points_to_first_witness:
  "(3::nat) \<le> 5 \<and> rearranges (rev :: nat list \<Rightarrow> nat list)
   \<and> (\<exists>l st. getlist rev id 5 = Inr l \<and> l ! (5 - 1) = 0
           \<and> analyze l 5 = Inr st
           \<and> 1 \<le> strides st ! nat (int 5 + - (int 5 - 1)))"
  using last_slot_points_to_first[of 5 rev id] by (simp add: rearranges_def)




end
